theory Spec2Isabelle
  imports Complex_Main "HOL-Library.Word"
begin

section \<open>Arrays, outcomes and the numpy primitives used by prepare_dataset.py\<close>

text \<open>
  A float64 array of numpy is a (nested) list of exact reals: rounding is not part of the
  model.  An outcome is either a value or one of the ways the Python can go wrong.
  \<open>IndexError\<close>, \<open>ValueError\<close> and \<open>LinAlgError\<close> are raised exceptions.  \<open>NotANumber\<close> is
  not raised: it stands for the array full of NaN that numpy hands back (with a
  RuntimeWarning) after a division of zero by zero, a mean over no slice or the square
  root of a negative number.
\<close>

datatype error = IndexError | ValueError | LinAlgError | NotANumber

type_synonym array2 = "real list list"
type_synonym array3 = "real list list list"

text \<open>Python's \<open>xs[a:b]\<close>: negative bounds count from the end, all bounds are clipped.\<close>

definition slice_index :: "nat \<Rightarrow> int \<Rightarrow> nat" where
  "slice_index n i = (if i < 0 then nat (max (i + int n) 0) else min (nat i) n)"

definition py_slice :: "'a list \<Rightarrow> int \<Rightarrow> int \<Rightarrow> 'a list" where
  "py_slice xs a b =
     (let s = slice_index (length xs) a; e = slice_index (length xs) b
      in take (e - s) (drop s xs))"

text \<open>\<open>np.mean(a, 0)\<close> of a stack of planes: the entrywise sum over the count.\<close>

fun sum_axis0 :: "array3 \<Rightarrow> array2" where
  "sum_axis0 [] = []"
| "sum_axis0 [s] = s"
| "sum_axis0 (s # ss) = map2 (map2 (+)) s (sum_axis0 ss)"

definition np_mean0 :: "array3 \<Rightarrow> error + array2" where
  "np_mean0 ss =
     (if ss = [] then Inl NotANumber
      else Inr (map (map (\<lambda>v. v / real (length ss))) (sum_axis0 ss)))"


text \<open>\<open>arr.max()\<close> and \<open>arr.min()\<close>: a reduction over no element raises ValueError.\<close>

definition np_max :: "array2 \<Rightarrow> error + real" where
  "np_max arr = (if concat arr = [] then Inl ValueError else Inr (Max (set (concat arr))))"

definition np_min :: "array2 \<Rightarrow> error + real" where
  "np_min arr = (if concat arr = [] then Inl ValueError else Inr (Min (set (concat arr))))"

text \<open>
  \<open>np.linspace(start, stop, num)\<close>: \<open>num\<close> equally spaced points, both ends included; a
  single point is \<open>start\<close>.
\<close>

definition linspace :: "real \<Rightarrow> real \<Rightarrow> nat \<Rightarrow> real list" where
  "linspace start stop num =
     (if num = 1 then [start]
      else map (\<lambda>i. start + real i * ((stop - start) / real (num - 1))) [0..<num])"

text \<open>\<open>np.diff\<close>: the differences of neighbours.\<close>

fun np_diff :: "real list \<Rightarrow> real list" where
  "np_diff (a # b # xs) = (b - a) # np_diff (b # xs)"
| "np_diff xs = []"

text \<open>\<open>np.outer\<close>.\<close>

definition outer :: "real list \<Rightarrow> real list \<Rightarrow> array2" where
  "outer u v = map (\<lambda>a. map (\<lambda>b. a * b) v) u"

text \<open>
  \<open>scipy.stats.norm.cdf\<close>, the distribution function of the standard normal law, as its
  power series around 0:
  \<open>\<Phi>(x) = 1/2 + (x / sqrt (2\<pi>)) * \<Sum>m. (-1/2)^m * (x^2)^m / (m! * (2m + 1))\<close>.
  Lemmas \<open>norm_cdf_deriv\<close> and \<open>norm_cdf_zero\<close> below pin it down: its derivative is the
  density \<open>exp (- x^2 / 2) / sqrt (2\<pi>)\<close> and its value at 0 is 1/2.
\<close>

definition cdf_coeff :: "nat \<Rightarrow> real" where
  "cdf_coeff m = (- 1 / 2) ^ m / (fact m * real (2 * m + 1))"

definition cdf_series :: "real \<Rightarrow> real" where
  "cdf_series t = (\<Sum>m. cdf_coeff m * t ^ m)"

definition norm_pdf :: "real \<Rightarrow> real" where
  "norm_pdf x = exp (- x\<^sup>2 / 2) / sqrt (2 * pi)"

definition norm_cdf :: "real \<Rightarrow> real" where
  "norm_cdf x = 1 / 2 + x * cdf_series (x\<^sup>2) / sqrt (2 * pi)"

section \<open>normalize\<close>

text \<open>
  \<open>(arr - mi) / (ma - mi)\<close>.  On a constant array every entry is 0 / 0: the NaN outcome.
\<close>

definition normalize :: "array2 \<Rightarrow> error + array2" where
  "normalize arr =
     (case np_max arr of Inl e \<Rightarrow> Inl e
      | Inr ma \<Rightarrow>
     (case np_min arr of Inl e \<Rightarrow> Inl e
      | Inr mi \<Rightarrow>
          if ma - mi = 0 then Inl NotANumber
          else Inr (map (map (\<lambda>v. (v - mi) / (ma - mi))) arr)))"

section \<open>gkern\<close>

definition gkern :: "nat \<Rightarrow> error + array2" where
  "gkern kernlen =
     (let x = linspace 0 1 (kernlen + 1);
          kern1d = np_diff (map norm_cdf x);
          kern2d = outer kern1d kern1d;
          s = sum_list (concat kern2d)
      in if concat kern2d \<noteq> [] \<and> s = 0 then Inl NotANumber
         else normalize (map (map (\<lambda>v. v / s)) kern2d))"

section \<open>heatmap\_generation\<close>

text \<open>
  \<open>scipy.signal.convolve(image, kernel)\<close> in its default mode \<open>full\<close>, on two-dimensional
  arrays: entry \<open>(i, j)\<close> of the result is the sum of \<open>img[a][b] * kernel[i - a][j - b]\<close>
  over the positions where both indices exist.  An operand without elements gives the
  empty array.
\<close>

definition scipy_convolve :: "array2 \<Rightarrow> array2 \<Rightarrow> array2" where
  "scipy_convolve img kern =
     (if concat img = [] \<or> concat kern = [] then []
      else let h = length img; w = length (hd img);
               kh = length kern; kw = length (hd kern)
           in map (\<lambda>i. map (\<lambda>j.
                (\<Sum>a\<leftarrow>[0..<h]. \<Sum>b\<leftarrow>[0..<w].
                   (if a \<le> i \<and> i - a < kh \<and> b \<le> j \<and> j - b < kw
                    then img ! a ! b * kern ! (i - a) ! (j - b) else 0)))
                [0..<w + kw - 1]) [0..<h + kh - 1])"

definition heatmap_generation :: "array2 \<Rightarrow> nat \<Rightarrow> error + array2" where
  "heatmap_generation img kernel_size =
     (case gkern kernel_size of Inl e \<Rightarrow> Inl e
      | Inr kern \<Rightarrow> normalize (scipy_convolve img kern))"

section \<open>multivariate\_gaussian\<close>

text \<open>
  Every call in the repository passes a mean of two components and a 2-by-2 matrix, so
  vectors are pairs and a matrix is a pair of rows.  \<open>np.linalg.inv\<close> raises LinAlgError
  on a singular matrix; \<open>np.linalg.det\<close> does not fail.  \<open>np.sqrt\<close> of a negative number
  is NaN.
\<close>

type_synonym vec2 = "real \<times> real"
type_synonym mat2 = "(real \<times> real) \<times> (real \<times> real)"

definition linalg_det :: "mat2 \<Rightarrow> real" where
  "linalg_det S = (case S of ((a, b), (c, d)) \<Rightarrow> a * d - b * c)"

definition linalg_inv :: "mat2 \<Rightarrow> error + mat2" where
  "linalg_inv S =
     (case S of ((a, b), (c, d)) \<Rightarrow>
        if a * d - b * c = 0 then Inl LinAlgError
        else Inr ((d / (a * d - b * c), - b / (a * d - b * c)),
                  (- c / (a * d - b * c), a / (a * d - b * c))))"

definition vsub :: "vec2 \<Rightarrow> vec2 \<Rightarrow> vec2" where
  "vsub p q = (fst p - fst q, snd p - snd q)"

text \<open>\<open>np.einsum('...k,kl,...l->...', u, S, v)\<close> at one grid point.\<close>

definition einsum :: "vec2 \<Rightarrow> mat2 \<Rightarrow> vec2 \<Rightarrow> real" where
  "einsum u S v =
     (case S of ((a, b), (c, d)) \<Rightarrow>
        fst u * a * fst v + fst u * b * snd v + snd u * c * fst v + snd u * d * snd v)"

definition multivariate_gaussian :: "vec2 list list \<Rightarrow> vec2 \<Rightarrow> mat2 \<Rightarrow> error + array2" where
  "multivariate_gaussian pos mu Sigma' =
     (let n = 2 :: nat;
          Sigma_det = linalg_det Sigma'
      in case linalg_inv Sigma' of Inl e \<Rightarrow> Inl e
         | Inr Sigma_inv \<Rightarrow>
             if (2 * pi) ^ n * Sigma_det < 0 then Inl NotANumber
             else let N = sqrt ((2 * pi) ^ n * Sigma_det)
                  in Inr (map (map (\<lambda>p.
                       exp (- einsum (vsub p mu) Sigma_inv (vsub p mu) / 2) / N)) pos))"

section \<open>label2maskmap\_gt\<close>

text \<open>
  The result is a float array when \<open>normalize\<close> is set and a uint8 array otherwise.
  The cast to uint8 drops the fraction.
\<close>

datatype heatmap = FloatMap array2 | ByteMap "8 word list list"

definition to_uint8 :: "real \<Rightarrow> 8 word" where
  "to_uint8 v = word_of_int (if 0 \<le> v then \<lfloor>v\<rfloor> else \<lceil>v\<rceil>)"

text \<open>\<open>np.meshgrid(X, Y)\<close> packed into \<open>pos\<close>: row \<open>i\<close>, column \<open>j\<close> holds \<open>(X[j], Y[i])\<close>.\<close>

definition meshgrid_pos :: "real list \<Rightarrow> real list \<Rightarrow> vec2 list list" where
  "meshgrid_pos X Y = map (\<lambda>yv. map (\<lambda>xv. (xv, yv)) X) Y"

definition label2maskmap_gt ::
  "real list \<Rightarrow> nat list \<Rightarrow> real \<Rightarrow> real \<Rightarrow> real \<Rightarrow> bool \<Rightarrow> error + heatmap" where
  "label2maskmap_gt data shape c_dx c_dy radius normalize_flag =
     (if length shape < 3 then Inl IndexError
      else let M = shape ! 2; N = shape ! 1
      in if length data < 2 then Inl IndexError
      else let data = (if length data \<le> 2 then [0, data ! 0, data ! 1] else data);
               x = data ! 2 + c_dx;
               y = data ! 1 + c_dy;
               X = linspace 0 (real M - 1) M;
               Y = linspace 0 (real N - 1) N;
               pos = meshgrid_pos X Y;
               mu = (x, y);
               Sigma' = ((radius, 0), (0, radius))
      in case multivariate_gaussian pos mu Sigma' of Inl e \<Rightarrow> Inl e
         | Inr Z \<Rightarrow>
        (case np_max Z of Inl e \<Rightarrow> Inl e
         | Inr m \<Rightarrow>
             if m = 0 then Inl NotANumber
             else let Z = map (map (\<lambda>z. z * (1 / m))) Z
                  in Inr (if normalize_flag then FloatMap Z
                          else ByteMap (map (map (\<lambda>z. to_uint8 (z * 255))) Z))))"

section \<open>extract\_all\<close>

text \<open>An entry of a heatmap, as the float it becomes when stored into \<open>final\<close>.\<close>

fun pixel :: "heatmap \<Rightarrow> nat \<Rightarrow> nat \<Rightarrow> real" where
  "pixel (FloatMap Z) w h = Z ! w ! h"
| "pixel (ByteMap B) w h = real (unat (B ! w ! h))"

text \<open>
  The loop over the points.  \<open>label2maskmap_gt\<close> is called with its defaults: no shift,
  radius 10, \<open>normalize=False\<close>.
\<close>

fun extract_loop :: "real list list \<Rightarrow> nat list \<Rightarrow> nat list \<Rightarrow> array2 \<Rightarrow> error + array2" where
  "extract_loop [] shape_tmp shape_im final = Inr final"
| "extract_loop (x # xs) shape_tmp shape_im final =
     (case label2maskmap_gt x shape_tmp 0 0 10 False of Inl e \<Rightarrow> Inl e
      | Inr train_lbs_tmp_mask \<Rightarrow>
          extract_loop xs shape_tmp shape_im
            (map (\<lambda>w. map (\<lambda>h. max (final ! w ! h) (pixel train_lbs_tmp_mask w h))
                            [0..<shape_im ! 1]) [0..<shape_im ! 0]))"

definition extract_all :: "real list list \<Rightarrow> nat list \<Rightarrow> error + array3" where
  "extract_all list_coord_label shape_im =
     (if length shape_im < 2 then Inl IndexError
      else let shape_tmp = [1, shape_im ! 0, shape_im ! 1];
               final = replicate (shape_im ! 0) (replicate (shape_im ! 1) 0)
      in case extract_loop list_coord_label shape_tmp shape_im final of Inl e \<Rightarrow> Inl e
         | Inr final \<Rightarrow> Inr [final])"

section \<open>get\_midslice\_average\<close>

text \<open>
  The function loads the volume from a path; the model starts at the loaded array
  \<open>arr\<close>.  \<open>arr.shape[0]\<close> is the number of planes.
\<close>

definition get_midslice_average :: "array3 \<Rightarrow> int \<Rightarrow> error + array2" where
  "get_midslice_average arr ind =
     (let numb_of_slice = 3;
          numb_of_slice = (if ind + 3 < int (length arr) then int (length arr) - ind
                           else numb_of_slice);
          numb_of_slice = (if ind - numb_of_slice < 0 then ind else numb_of_slice)
      in np_mean0 (py_slice arr (ind - numb_of_slice) (ind + numb_of_slice)))"

text \<open>
  The window rule in the words of the specification, for comparison: the half-width
  starts at 3, shrinks to \<open>extent - index\<close> if \<open>index + 3\<close> exceeds the extent, and to
  \<open>index\<close> if \<open>index - window < 0\<close>.
\<close>

definition average_slices_spec :: "array3 \<Rightarrow> int \<Rightarrow> error + array2" where
  "average_slices_spec volume index =
     (let window = 3;
          window = (if index + 3 > int (length volume) then int (length volume) - index
                    else window);
          window = (if index - window < 0 then index else window)
      in np_mean0 (py_slice volume (index - window) (index + window)))"

text \<open>A volume of ten 1-by-1 planes holding the squares 0, 1, 4, ..., 81.\<close>

definition squares_volume :: array3 where
  "squares_volume = map (\<lambda>i. [[real (i * i)]]) [0..<10]"

text \<open>A volume of four 1-by-2 planes.\<close>

definition four_planes :: array3 where
  "four_planes = [[[5, 6]], [[1, 2]], [[3, 4]], [[7, 8]]]"

section \<open>Notions used to state the properties\<close>

text \<open>The squared Euclidean distance of two points of the plane.\<close>

definition sqdist :: "vec2 \<Rightarrow> vec2 \<Rightarrow> real" where
  "sqdist p q = (fst p - fst q)\<^sup>2 + (snd p - snd q)\<^sup>2"

text \<open>
  The closed form of the grid that \<open>label2maskmap_gt\<close> hands to the evaluator and gets back:
  \<open>N\<close> rows of \<open>M\<close> densities around \<open>mu\<close>, for a positive radius \<open>r\<close>; and the \<open>(x, y)\<close> that
  the function reads from a point label.
\<close>

definition gauss_grid :: "nat \<Rightarrow> nat \<Rightarrow> vec2 \<Rightarrow> real \<Rightarrow> array2" where
  "gauss_grid M N mu r =
     map (map (\<lambda>p. exp (- (sqdist p mu / r) / 2) / (2 * pi * r)))
       (meshgrid_pos (map real [0..<M]) (map real [0..<N]))"

definition point_xy :: "real list \<Rightarrow> vec2" where
  "point_xy data = (if length data \<le> 2 then (data ! 1, data ! 0) else (data ! 2, data ! 1))"

text \<open>
  The probability that the standard normal law gives to the \<open>i\<close>-th of \<open>k\<close> equal bins of
  \<open>[0, 1]\<close> (the entries of \<open>kern1d\<close>), and the closed form of an entry of the kernel.
\<close>

definition bin_prob :: "nat \<Rightarrow> nat \<Rightarrow> real" where
  "bin_prob k i = norm_cdf (real (i + 1) / real k) - norm_cdf (real i / real k)"

definition kernel_entry :: "nat \<Rightarrow> nat \<Rightarrow> nat \<Rightarrow> real" where
  "kernel_entry k i j =
     (bin_prob k i * bin_prob k j - bin_prob k (k - 1) * bin_prob k (k - 1))
       / (bin_prob k 0 * bin_prob k 0 - bin_prob k (k - 1) * bin_prob k (k - 1))"

text \<open>
  The label images of \<open>heatmap_generation\<close>: an \<open>h\<close>-by-\<open>w\<close> image with a single 1, at row \<open>r\<close>
  and column \<open>c\<close>; and the images all of whose entries are 0 or 1.
\<close>

definition one_hot :: "nat \<Rightarrow> nat \<Rightarrow> nat \<Rightarrow> nat \<Rightarrow> array2" where
  "one_hot h w r c = map (\<lambda>a. map (\<lambda>b. if a = r \<and> b = c then 1 else 0) [0..<w]) [0..<h]"


text \<open>Reading \<open>final[k, w, h]\<close> out of an outcome.\<close>

definition entry3 :: "error + array3 \<Rightarrow> nat \<Rightarrow> nat \<Rightarrow> nat \<Rightarrow> error + real" where
  "entry3 r k w h = (case r of Inl e \<Rightarrow> Inl e | Inr F \<Rightarrow> Inr (F ! k ! w ! h))"

section \<open>Mid-slice averaging\<close>

lemma squares_volume_unfold:
  "squares_volume = [[[0]], [[1]], [[4]], [[9]], [[16]], [[25]], [[36]], [[49]], [[64]], [[81]]]"
  by (simp add: squares_volume_def upt_rec)

text \<open>
  Claim C3.  The claim says the half-width stays 3 unless \<open>index + 3\<close> exceeds the extent.
  The code tests \<open>ind + 3 < arr.shape[0]\<close> instead.  In the interior of the volume it
  widens the window to \<open>extent - ind\<close>: on the ten-plane volume at index 5 it averages all
  ten planes (285 / 10), where the rule of the claim averages planes 2 to 7 (139 / 6).
  Next to the far end it does not shrink the window: at index 9 it averages planes 6 to 9
  (230 / 4), where the rule of the claim averages planes 8 and 9 (145 / 2).
\<close>

theorem midslice_window_test_inverted:
  "get_midslice_average squares_volume 5 = Inr [[57 / 2]]
   \<and> average_slices_spec squares_volume 5 = Inr [[139 / 6]]
   \<and> get_midslice_average squares_volume 9 = Inr [[115 / 2]]
   \<and> average_slices_spec squares_volume 9 = Inr [[145 / 2]]"
  by (simp add: squares_volume_unfold get_midslice_average_def average_slices_spec_def
      py_slice_def slice_index_def np_mean0_def)

text \<open>
  Claim C4.  At index 0 the half-width becomes 0 whatever the extent, and the code
  averages the empty range \<open>arr[0:0]\<close>: the result is the NaN outcome, not the first plane.
  So it is on the volume of four planes, whose first plane is \<open>[[5, 6]]\<close>.
\<close>

theorem midslice_index_zero_is_nan:
  "get_midslice_average arr 0 = Inl NotANumber
   \<and> get_midslice_average four_planes 0 = Inl NotANumber \<and> four_planes ! 0 = [[5, 6]]"
proof -
  have "get_midslice_average a 0 = Inl NotANumber" for a
    by (simp add: get_midslice_average_def py_slice_def slice_index_def np_mean0_def Let_def)
  then show ?thesis by (simp add: four_planes_def)
qed

section \<open>The Gaussian evaluator\<close>

lemma linspace_grid: "linspace 0 (real M - 1) M = map real [0..<M]"
proof (cases "M = 1")
  case True
  then show ?thesis by (simp add: linspace_def)
next
  case False
  have "real i * ((real M - 1 - 0) / real (M - 1)) = real i" if "i < M" for i
  proof -
    from that False have "2 \<le> M" by simp
    then have "real (M - 1) = real M - 1" "real M - 1 \<noteq> 0" by (simp_all add: of_nat_diff)
    then show ?thesis by simp
  qed
  with False show ?thesis by (simp add: linspace_def)
qed

lemma linalg_inv_isotropic:
  "linalg_inv ((r, 0), (0, r)) = (if r = 0 then Inl LinAlgError else Inr ((1 / r, 0), (0, 1 / r)))"
  by (simp add: linalg_inv_def)

lemma einsum_isotropic:
  "einsum u ((a, 0), (0, a)) u = ((fst u)\<^sup>2 + (snd u)\<^sup>2) * a"
  by (simp add: einsum_def power2_eq_square algebra_simps)

lemma mg_isotropic:
  "multivariate_gaussian pos mu ((r, 0), (0, r)) =
     (if r = 0 then Inl LinAlgError
      else Inr (map (map (\<lambda>p. exp (- (sqdist p mu / r) / 2) / (2 * pi * \<bar>r\<bar>))) pos))"
proof (cases "r = 0")
  case True
  then show ?thesis by (simp add: multivariate_gaussian_def linalg_inv_isotropic)
next
  case False
  have "sqrt ((2 * pi)\<^sup>2 * (r * r)) = 2 * pi * \<bar>r\<bar>"
    by (simp add: real_sqrt_mult power2_eq_square[symmetric])
  moreover have "\<not> (2 * pi)\<^sup>2 * (r * r) < 0"
    unfolding not_less by (intro mult_nonneg_nonneg zero_le_power2 zero_le_square)
  ultimately show ?thesis using False
    by (simp add: multivariate_gaussian_def linalg_inv_isotropic linalg_det_def
        einsum_isotropic sqdist_def vsub_def Let_def)
qed

lemma mg_positive_radius:
  assumes "0 < r"
  shows "multivariate_gaussian pos mu ((r, 0), (0, r)) =
           Inr (map (map (\<lambda>p. exp (- (sqdist p mu / r) / 2) / (2 * pi * r))) pos)"
  using assms by (simp add: mg_isotropic)

lemma gauss_value_pos: "0 < r \<Longrightarrow> 0 < exp (- (s / r) / 2) / (2 * pi * r)" for r s :: real
  by simp

lemma gauss_value_less:
  fixes r s t :: real
  assumes "0 < r" "s < t"
  shows "exp (- (t / r) / 2) / (2 * pi * r) < exp (- (s / r) / 2) / (2 * pi * r)"
proof -
  from assms have "s / r < t / r" by (simp add: divide_strict_right_mono)
  then have "exp (- (t / r) / 2) < exp (- (s / r) / 2)" by simp
  moreover from assms have "0 < 2 * pi * r" by simp
  ultimately show ?thesis by (rule divide_strict_right_mono)
qed

lemma gauss_value_le:
  fixes r s t :: real
  assumes "0 < r" "s \<le> t"
  shows "exp (- (t / r) / 2) / (2 * pi * r) \<le> exp (- (s / r) / 2) / (2 * pi * r)"
  using gauss_value_less [OF assms(1), of s t] assms(2) by (cases "s = t") auto

lemma sqdist_nonneg: "0 \<le> sqdist p q"
  by (simp add: sqdist_def)

lemma sqdist_self: "sqdist p p = 0"
  by (simp add: sqdist_def)

lemma mem_nonempty: "z \<in> set xs \<Longrightarrow> xs \<noteq> []"
  by (cases xs) simp_all

lemma concat_nth_mem:
  assumes "a < length xss" and "b < length (xss ! a)"
  shows "xss ! a ! b \<in> set (concat xss)"
proof -
  have "xss ! a \<in> set xss" using assms(1) by simp
  moreover have "xss ! a ! b \<in> set (xss ! a)" using assms(2) by simp
  ultimately show ?thesis by auto
qed

lemma concat_mem_nth:
  assumes "z \<in> set (concat xss)"
  shows "\<exists>a<length xss. \<exists>b<length (xss ! a). z = xss ! a ! b"
proof -
  from assms obtain xs where xs: "xs \<in> set xss" "z \<in> set xs" by auto
  from xs(1) obtain a where a: "a < length xss" "xs = xss ! a"
    by (auto simp: in_set_conv_nth)
  from xs(2) obtain b where b: "b < length xs" "z = xs ! b"
    by (auto simp: in_set_conv_nth)
  from a b show ?thesis by auto
qed




text \<open>
  Claim C9, as the code has it.  With the covariance \<open>diag(radius, radius)\<close> the evaluator
  fails exactly when the radius is 0 (the inverse of a singular matrix raises
  LinAlgError).  A negative radius is not rejected: every grid point gets the value
  \<open>exp (- d\<^sup>2 / (2 * radius)) / (2 * pi * \<bar>radius\<bar>)\<close>, where \<open>d\<close> is its distance from the mean.
  Through \<open>label2maskmap_gt\<close> a radius of 0 ends in the same LinAlgError, once the shape
  and the point have been read.
\<close>

theorem gaussian_rejects_only_zero_radius:
  "multivariate_gaussian pos mu ((radius, 0), (0, radius)) =
     (if radius = 0 then Inl LinAlgError
      else Inr (map (map (\<lambda>p. exp (- (sqdist p mu / radius) / 2) / (2 * pi * \<bar>radius\<bar>))) pos))
   \<and> label2maskmap_gt data shape c_dx c_dy 0 flag =
       (if length shape < 3 \<or> length data < 2 then Inl IndexError else Inl LinAlgError)"
proof
  show "multivariate_gaussian pos mu ((radius, 0), (0, radius)) =
     (if radius = 0 then Inl LinAlgError
      else Inr (map (map (\<lambda>p. exp (- (sqdist p mu / radius) / 2) / (2 * pi * \<bar>radius\<bar>))) pos))"
    by (rule mg_isotropic)
  have "multivariate_gaussian grid m ((0, 0), (0, 0)) = Inl LinAlgError" for grid m
    using mg_isotropic [of grid m 0] by simp
  then show "label2maskmap_gt data shape c_dx c_dy 0 flag =
       (if length shape < 3 \<or> length data < 2 then Inl IndexError else Inl LinAlgError)"
    by (simp add: label2maskmap_gt_def Let_def)
qed

text \<open>Radius \<open>-1\<close> on a one-point grid: a value comes back.\<close>

theorem negative_radius_not_rejected:
  "multivariate_gaussian [[(0, 0)]] (0, 0) ((- 1, 0), (0, - 1)) = Inr [[1 / (2 * pi)]]"
  by (simp add: mg_isotropic sqdist_def)


section \<open>Heatmaps from points\<close>

lemma set_concat_map_map: "set (concat (map (map f) xss)) = f ` set (concat xss)"
  by auto


lemma gauss_grid_length: "length (gauss_grid M N mu r) = N"
  by (simp add: gauss_grid_def meshgrid_pos_def)

lemma gauss_grid_row_length: "y < N \<Longrightarrow> length (gauss_grid M N mu r ! y) = M"
  by (simp add: gauss_grid_def meshgrid_pos_def)

lemma gauss_grid_nth:
  "y < N \<Longrightarrow> x < M \<Longrightarrow>
   gauss_grid M N mu r ! y ! x = exp (- (sqdist (real x, real y) mu / r) / 2) / (2 * pi * r)"
  by (simp add: gauss_grid_def meshgrid_pos_def)

lemma gauss_grid_nonempty: "0 < M \<Longrightarrow> 0 < N \<Longrightarrow> concat (gauss_grid M N mu r) \<noteq> []"
proof -
  assume "0 < M" "0 < N"
  then have "gauss_grid M N mu r ! 0 ! 0 \<in> set (concat (gauss_grid M N mu r))"
    by (intro concat_nth_mem) (simp_all add: gauss_grid_length gauss_grid_row_length)
  then show ?thesis by (rule mem_nonempty)
qed

lemma gauss_grid_pos:
  assumes "0 < r" and "z \<in> set (concat (gauss_grid M N mu r))"
  shows "0 < z"
proof -
  from assms(2) obtain p where "z = exp (- (sqdist p mu / r) / 2) / (2 * pi * r)"
    unfolding gauss_grid_def set_concat_map_map by blast
  with assms(1) show ?thesis by simp
qed

lemma gauss_grid_max_pos:
  assumes "0 < r" "0 < M" "0 < N"
  shows "0 < Max (set (concat (gauss_grid M N mu r)))"
proof -
  have "Max (set (concat (gauss_grid M N mu r))) \<in> set (concat (gauss_grid M N mu r))"
    by (rule Max_in) (simp_all only: List.finite_set set_empty gauss_grid_nonempty [OF assms(2,3)] not_False_eq_True)
  then show ?thesis by (rule gauss_grid_pos [OF assms(1)])
qed

lemma label2maskmap_gt_eq:
  assumes "3 \<le> length shape" and "2 \<le> length data" and "0 < radius"
  shows "label2maskmap_gt data shape c_dx c_dy radius flag =
           (let G = gauss_grid (shape ! 2) (shape ! 1)
                      (fst (point_xy data) + c_dx, snd (point_xy data) + c_dy) radius
            in if concat G = [] then Inl ValueError
               else let Z = map (map (\<lambda>z. z * (1 / Max (set (concat G))))) G
                    in Inr (if flag then FloatMap Z
                            else ByteMap (map (map (\<lambda>z. to_uint8 (z * 255))) Z)))"
proof -
  let ?M = "shape ! 2" and ?N = "shape ! 1"
  let ?mu = "(fst (point_xy data) + c_dx, snd (point_xy data) + c_dy)"
  let ?G = "gauss_grid ?M ?N ?mu radius"
  have mu: "((if length data \<le> 2 then [0, data ! 0, data ! 1] else data) ! 2 + c_dx,
             (if length data \<le> 2 then [0, data ! 0, data ! 1] else data) ! 1 + c_dy) = ?mu"
    by (simp add: point_xy_def)
  have mg: "multivariate_gaussian (meshgrid_pos (linspace 0 (real ?M - 1) ?M)
               (linspace 0 (real ?N - 1) ?N)) ?mu ((radius, 0), (0, radius)) = Inr ?G"
    unfolding linspace_grid gauss_grid_def using assms(3) by (rule mg_positive_radius)
  show ?thesis
  proof (cases "concat ?G = []")
    case True
    then have mx: "np_max ?G = Inl ValueError" by (simp add: np_max_def)
    from True assms(1,2) show ?thesis
      unfolding label2maskmap_gt_def Let_def mu mg sum.case mx by simp
  next
    case False
    then have mx: "np_max ?G = Inr (Max (set (concat ?G)))" by (simp add: np_max_def)
    have "0 < Max (set (concat ?G))"
    proof -
      have "Max (set (concat ?G)) \<in> set (concat ?G)"
        using False by (intro Max_in) simp_all
      then show ?thesis by (rule gauss_grid_pos [OF assms(3)])
    qed
    then have "Max (set (concat ?G)) \<noteq> 0" by simp
    with False assms(1,2) show ?thesis
      unfolding label2maskmap_gt_def Let_def mu mg sum.case mx by simp
  qed
qed




lemma to_uint8_255: "to_uint8 (1 * 255) = 255"
  by (simp add: to_uint8_def)

lemma byte_le_255: "(w :: 8 word) \<le> 255"
proof -
  have "uint w < 2 ^ LENGTH(8)" by (rule uint_lt2p)
  then show ?thesis by (simp add: word_le_def)
qed




section \<open>Merging the heatmaps of several points\<close>

lemma gauss_grid_peak:
  assumes "0 < r" and "yp < N" and "xp < M"
  shows "Max (set (concat (gauss_grid M N (real xp, real yp) r)))
           = gauss_grid M N (real xp, real yp) r ! yp ! xp"
proof (rule Max_eqI)
  let ?G = "gauss_grid M N (real xp, real yp) r"
  show "finite (set (concat ?G))" by simp
  show "?G ! yp ! xp \<in> set (concat ?G)"
    by (rule concat_nth_mem) (simp_all add: gauss_grid_length gauss_grid_row_length assms)
  fix z assume "z \<in> set (concat ?G)"
  then have "\<exists>a<length ?G. \<exists>b<length (?G ! a). z = ?G ! a ! b"
    by (rule concat_mem_nth)
  then obtain a b where ab: "a < length ?G" "b < length (?G ! a)" "z = ?G ! a ! b"
    by blast
  from ab(1) have a: "a < N" by (simp add: gauss_grid_length)
  with ab(2) have b: "b < M" by (simp add: gauss_grid_row_length)
  have "sqdist (real xp, real yp) (real xp, real yp) \<le> sqdist (real b, real a) (real xp, real yp)"
    by (simp add: sqdist_self sqdist_nonneg)
  then show "z \<le> ?G ! yp ! xp"
    unfolding ab(3) gauss_grid_nth [OF a b] gauss_grid_nth [OF assms(2,3)]
    by (rule gauss_value_le [OF assms(1)])
qed

lemma unat_byte_255: "real (unat (255 :: 8 word)) = 255"
  by simp

lemma unat_byte_le: "real (unat (w :: 8 word)) \<le> 255"
proof -
  have "w \<le> 255" by (rule byte_le_255)
  then have "unat w \<le> unat (255 :: 8 word)" by (simp only: word_le_nat_alt)
  then have "unat w \<le> 255" by simp
  then have "real (unat w) \<le> real 255" by (simp only: of_nat_le_iff)
  then show ?thesis by (simp only: of_nat_numeral)
qed

lemma label2maskmap_gt_default:
  assumes "2 \<le> length p" and "0 < H" and "0 < W"
  shows "\<exists>A. label2maskmap_gt p [1, H, W] 0 0 10 False = Inr (ByteMap A)
           \<and> length A = H \<and> (\<forall>w<H. length (A ! w) = W)
           \<and> (\<forall>xp yp. point_xy p = (real xp, real yp) \<and> yp < H \<and> xp < W \<longrightarrow> A ! yp ! xp = 255)"
proof -
  define G where "G = gauss_grid W H (fst (point_xy p) + 0, snd (point_xy p) + 0) 10"
  define m where "m = Max (set (concat G))"
  define A where "A = map (map (\<lambda>z. to_uint8 (z * 255))) (map (map (\<lambda>z. z * (1 / m))) G)"
  have ne: "concat G \<noteq> []"
    unfolding G_def using assms(3,2) by (rule gauss_grid_nonempty)
  have mpos: "0 < m"
    unfolding m_def G_def using _ assms(3,2) by (rule gauss_grid_max_pos) simp
  have "label2maskmap_gt p [1, H, W] 0 0 10 False =
          (let G = gauss_grid ([1, H, W] ! 2) ([1, H, W] ! 1)
                      (fst (point_xy p) + 0, snd (point_xy p) + 0) 10
            in if concat G = [] then Inl ValueError
               else let Z = map (map (\<lambda>z. z * (1 / Max (set (concat G))))) G
                    in Inr (if False then FloatMap Z
                            else ByteMap (map (map (\<lambda>z. to_uint8 (z * 255))) Z)))"
    by (rule label2maskmap_gt_eq) (simp_all add: assms)
  also have "[1, H, W] ! 2 = W" by simp
  also have "[1, H, W] ! 1 = H" by simp
  finally have run: "label2maskmap_gt p [1, H, W] 0 0 10 False = Inr (ByteMap A)"
    unfolding Let_def G_def [symmetric] m_def [symmetric] A_def [symmetric]
    using ne by simp
  have lenG: "length G = H" by (simp add: G_def gauss_grid_length)
  have rowG: "length (G ! w) = W" if "w < H" for w
    using that by (simp add: G_def gauss_grid_row_length)
  have len: "length A = H" by (simp add: A_def lenG)
  have row: "length (A ! w) = W" if "w < H" for w
    using that by (simp add: A_def lenG rowG)
  have entry: "A ! w ! h = to_uint8 (G ! w ! h * (1 / m) * 255)" if "w < H" "h < W" for w h
    using that by (simp add: A_def lenG rowG)
  have peak: "A ! yp ! xp = 255" if "point_xy p = (real xp, real yp)" "yp < H" "xp < W" for xp yp
  proof -
    have G: "G = gauss_grid W H (real xp, real yp) 10"
      by (simp add: G_def that(1))
    have "m = G ! yp ! xp"
      unfolding m_def G using _ that(2,3) by (rule gauss_grid_peak) simp
    with mpos have "G ! yp ! xp * (1 / m) * 255 = 1 * 255" by simp
    then show ?thesis
      unfolding entry [OF that(2,3)] by (simp only: to_uint8_255)
  qed
  from run len row peak show ?thesis by blast
qed

lemma extract_all_pair:
  assumes "2 \<le> length shape_im" and "2 \<le> length p" and "2 \<le> length q"
    and "0 < shape_im ! 0" and "0 < shape_im ! 1"
  shows "\<exists>A B. label2maskmap_gt p [1, shape_im ! 0, shape_im ! 1] 0 0 10 False = Inr (ByteMap A)
           \<and> label2maskmap_gt q [1, shape_im ! 0, shape_im ! 1] 0 0 10 False = Inr (ByteMap B)
           \<and> (\<forall>xp yp. point_xy p = (real xp, real yp) \<and> yp < shape_im ! 0 \<and> xp < shape_im ! 1
                  \<longrightarrow> A ! yp ! xp = 255)
           \<and> (\<forall>xp yp. point_xy q = (real xp, real yp) \<and> yp < shape_im ! 0 \<and> xp < shape_im ! 1
                  \<longrightarrow> B ! yp ! xp = 255)
           \<and> extract_all [p, q] shape_im =
               Inr [map (\<lambda>w. map (\<lambda>h. max (max 0 (real (unat (A ! w ! h))))
                                           (real (unat (B ! w ! h))))
                                 [0..<shape_im ! 1]) [0..<shape_im ! 0]]"
proof -
  let ?H = "shape_im ! 0" and ?W = "shape_im ! 1"
  from label2maskmap_gt_default [OF assms(2,4,5)] obtain A where
    A: "label2maskmap_gt p [1, ?H, ?W] 0 0 10 False = Inr (ByteMap A)"
    and Apeak: "\<forall>xp yp. point_xy p = (real xp, real yp) \<and> yp < ?H \<and> xp < ?W \<longrightarrow> A ! yp ! xp = 255"
    by blast
  from label2maskmap_gt_default [OF assms(3,4,5)] obtain B where
    B: "label2maskmap_gt q [1, ?H, ?W] 0 0 10 False = Inr (ByteMap B)"
    and Bpeak: "\<forall>xp yp. point_xy q = (real xp, real yp) \<and> yp < ?H \<and> xp < ?W \<longrightarrow> B ! yp ! xp = 255"
    by blast
  let ?F0 = "replicate ?H (replicate ?W (0 :: real))"
  let ?F1 = "map (\<lambda>w. map (\<lambda>h. max (?F0 ! w ! h) (pixel (ByteMap A) w h)) [0..<?W]) [0..<?H]"
  let ?F2 = "map (\<lambda>w. map (\<lambda>h. max (?F1 ! w ! h) (pixel (ByteMap B) w h)) [0..<?W]) [0..<?H]"
  have loop: "extract_loop [p, q] [1, ?H, ?W] shape_im ?F0 = Inr ?F2"
    by (simp only: extract_loop.simps A B sum.case)
  have "?F2 = map (\<lambda>w. map (\<lambda>h. max (max 0 (real (unat (A ! w ! h))))
                                           (real (unat (B ! w ! h)))) [0..<?W]) [0..<?H]"
    by (rule map_cong [OF refl], rule map_cong [OF refl]) simp
  with loop have "extract_all [p, q] shape_im =
               Inr [map (\<lambda>w. map (\<lambda>h. max (max 0 (real (unat (A ! w ! h))))
                                           (real (unat (B ! w ! h)))) [0..<?W]) [0..<?H]]"
    using assms(1) by (simp add: extract_all_def Let_def)
  with A B Apeak Bpeak show ?thesis by blast
qed

lemma max_zero_byte: "max 0 (real (unat (w :: 8 word))) = real (unat w)"
  by (rule max_absorb2) (rule of_nat_0_le_iff)

lemma fold_max_Max:
  fixes f :: "'a \<Rightarrow> real"
  shows "fold (\<lambda>A acc. max acc (f A)) As x = Max (insert x (f ` set As))"
proof (induction As arbitrary: x)
  case Nil
  then show ?case by simp
next
  case (Cons A As)
  have "fold (\<lambda>A acc. max acc (f A)) (A # As) x = Max (insert (max x (f A)) (f ` set As))"
    by (simp add: Cons.IH)
  also have "\<dots> = Max (insert x (insert (f A) (f ` set As)))"
  proof (cases "set As = {}")
    case True
    then show ?thesis by (simp add: max.commute)
  next
    case False
    then show ?thesis by (simp add: max.assoc)
  qed
  finally show ?case by simp
qed

lemma extract_loop_fold:
  assumes "\<forall>p\<in>set pts. 2 \<le> length p" and "0 < shape_im ! 0" and "0 < shape_im ! 1"
    and "length final = shape_im ! 0" and "\<forall>w < shape_im ! 0. length (final ! w) = shape_im ! 1"
  shows "\<exists>As. length As = length pts
           \<and> (\<forall>n<length pts. label2maskmap_gt (pts ! n) [1, shape_im ! 0, shape_im ! 1] 0 0 10 False
                  = Inr (ByteMap (As ! n)))
           \<and> extract_loop pts [1, shape_im ! 0, shape_im ! 1] shape_im final
               = Inr (map (\<lambda>w. map (\<lambda>h. fold (\<lambda>A acc. max acc (real (unat (A ! w ! h)))) As
                                             (final ! w ! h))
                                  [0..<shape_im ! 1]) [0..<shape_im ! 0])"
  using assms(1,4,5)
proof (induction pts arbitrary: final)
  case Nil
  have "final = map (\<lambda>w. map (\<lambda>h. final ! w ! h) [0..<shape_im ! 1]) [0..<shape_im ! 0]"
  proof (rule nth_equalityI)
    show "length final = length (map (\<lambda>w. map (\<lambda>h. final ! w ! h) [0..<shape_im ! 1]) [0..<shape_im ! 0])"
      using Nil.prems(2) by simp
    fix w assume "w < length final"
    then have w: "w < shape_im ! 0" using Nil.prems(2) by simp
    with Nil.prems(3) have "length (final ! w) = shape_im ! 1" by blast
    then have "final ! w = map (\<lambda>h. final ! w ! h) [0..<shape_im ! 1]"
      by (metis map_nth)
    with w show "final ! w = map (\<lambda>w. map (\<lambda>h. final ! w ! h) [0..<shape_im ! 1]) [0..<shape_im ! 0] ! w"
      by simp
  qed
  then show ?case by (intro exI [of _ "[]"]) simp
next
  case (Cons p pts)
  let ?H = "shape_im ! 0" and ?W = "shape_im ! 1"
  from Cons.prems(1) have p: "2 \<le> length p" and rest: "\<forall>p\<in>set pts. 2 \<le> length p" by simp_all
  from label2maskmap_gt_default [OF p assms(2,3)] obtain A where
    A: "label2maskmap_gt p [1, ?H, ?W] 0 0 10 False = Inr (ByteMap A)" by blast
  define final' where "final' = map (\<lambda>w. map (\<lambda>h. max (final ! w ! h) (pixel (ByteMap A) w h))
                                                [0..<?W]) [0..<?H]"
  have shape': "length final' = ?H" "\<forall>w < ?H. length (final' ! w) = ?W"
    by (simp_all add: final'_def)
  from Cons.IH [OF rest shape'] obtain As where
    len: "length As = length pts"
    and each: "\<forall>n<length pts. label2maskmap_gt (pts ! n) [1, ?H, ?W] 0 0 10 False = Inr (ByteMap (As ! n))"
    and run: "extract_loop pts [1, ?H, ?W] shape_im final'
               = Inr (map (\<lambda>w. map (\<lambda>h. fold (\<lambda>A acc. max acc (real (unat (A ! w ! h)))) As
                                             (final' ! w ! h)) [0..<?W]) [0..<?H])"
    by blast
  have step: "extract_loop (p # pts) [1, ?H, ?W] shape_im final
                = extract_loop pts [1, ?H, ?W] shape_im final'"
    by (simp only: extract_loop.simps A sum.case final'_def)
  have cells: "map (\<lambda>w. map (\<lambda>h. fold (\<lambda>A acc. max acc (real (unat (A ! w ! h)))) As
                                             (final' ! w ! h)) [0..<?W]) [0..<?H]
             = map (\<lambda>w. map (\<lambda>h. fold (\<lambda>A acc. max acc (real (unat (A ! w ! h)))) (A # As)
                                             (final ! w ! h)) [0..<?W]) [0..<?H]"
    by (rule map_cong [OF refl], rule map_cong [OF refl]) (simp add: final'_def)
  have all: "\<forall>n<length (p # pts). label2maskmap_gt ((p # pts) ! n) [1, ?H, ?W] 0 0 10 False
                  = Inr (ByteMap ((A # As) ! n))"
  proof (intro allI impI)
    fix n assume "n < length (p # pts)"
    then show "label2maskmap_gt ((p # pts) ! n) [1, ?H, ?W] 0 0 10 False = Inr (ByteMap ((A # As) ! n))"
      using A each by (cases n) simp_all
  qed
  show ?case
    by (intro exI [of _ "A # As"] conjI all) (simp_all only: step run cells len length_Cons)
qed

text \<open>
  Claim C2, as the code has it.  \<open>extract_all\<close> calls \<open>label2maskmap_gt\<close> with its default
  \<open>normalize=False\<close>, so each point's heatmap is the 8-bit one, with peak 255.  For every
  list of points of at least two coordinates and every canvas with a row and a column,
  the merged image is, at every pixel, the maximum of 0 and of the heatmaps of all points
  (never more than 255); it is 255 at every point whose coordinates are a pixel of the
  canvas; and for two points it is the maximum of the two heatmaps.
\<close>

theorem extract_all_merges_by_maximum:
  assumes "2 \<le> length shape_im" and "0 < shape_im ! 0" and "0 < shape_im ! 1"
    and "\<forall>p\<in>set pts. 2 \<le> length p"
  shows "\<exists>F As. extract_all pts shape_im = Inr [F] \<and> length As = length pts
           \<and> (\<forall>n<length pts.
                 label2maskmap_gt (pts ! n) [1, shape_im ! 0, shape_im ! 1] 0 0 10 False
                   = Inr (ByteMap (As ! n)))
           \<and> (\<forall>w < shape_im ! 0. \<forall>h < shape_im ! 1.
                 F ! w ! h = Max (insert 0 ((\<lambda>A. real (unat (A ! w ! h))) ` set As))
                 \<and> F ! w ! h \<le> 255)
           \<and> (\<forall>n<length pts. \<forall>xp yp.
                 point_xy (pts ! n) = (real xp, real yp) \<and> yp < shape_im ! 0 \<and> xp < shape_im ! 1
                 \<longrightarrow> F ! yp ! xp = 255)
           \<and> (length pts = 2 \<longrightarrow>
                 (\<forall>w < shape_im ! 0. \<forall>h < shape_im ! 1.
                    F ! w ! h = max (real (unat (As ! 0 ! w ! h))) (real (unat (As ! 1 ! w ! h)))))"
proof -
  let ?H = "shape_im ! 0" and ?W = "shape_im ! 1"
  define final where "final = replicate ?H (replicate ?W (0 :: real))"
  have shape0: "length final = ?H" "\<forall>w < ?H. length (final ! w) = ?W"
    by (simp_all add: final_def)
  from extract_loop_fold [OF assms(4,2,3) shape0] obtain As where
    len: "length As = length pts"
    and each: "\<forall>n<length pts. label2maskmap_gt (pts ! n) [1, ?H, ?W] 0 0 10 False
                  = Inr (ByteMap (As ! n))"
    and loop: "extract_loop pts [1, ?H, ?W] shape_im final
               = Inr (map (\<lambda>w. map (\<lambda>h. fold (\<lambda>A acc. max acc (real (unat (A ! w ! h)))) As
                                             (final ! w ! h)) [0..<?W]) [0..<?H])"
    by blast
  define F where "F = map (\<lambda>w. map (\<lambda>h. fold (\<lambda>A acc. max acc (real (unat (A ! w ! h)))) As
                                             (final ! w ! h)) [0..<?W]) [0..<?H]"
  have run: "extract_all pts shape_im = Inr [F]"
    using assms(1) loop by (simp add: extract_all_def Let_def final_def F_def)
  have entry: "F ! w ! h = Max (insert 0 ((\<lambda>A. real (unat (A ! w ! h))) ` set As))"
    if "w < ?H" "h < ?W" for w h
  proof -
    from that have "F ! w ! h = fold (\<lambda>A acc. max acc (real (unat (A ! w ! h)))) As 0"
      by (simp add: F_def final_def)
    then show ?thesis by (simp only: fold_max_Max)
  qed
  have bound: "F ! w ! h \<le> 255" if "w < ?H" "h < ?W" for w h
    unfolding entry [OF that]
  proof (rule Max.boundedI)
    show "finite (insert 0 ((\<lambda>A. real (unat (A ! w ! h))) ` set As))" by simp
    show "insert 0 ((\<lambda>A. real (unat (A ! w ! h))) ` set As) \<noteq> {}" by simp
    fix a assume "a \<in> insert 0 ((\<lambda>A. real (unat (A ! w ! h))) ` set As)"
    then consider "a = 0" | A where "a = real (unat (A ! w ! h :: 8 word))" by blast
    then show "a \<le> 255"
    proof cases
      case 1
      then show ?thesis by simp
    next
      case 2
      then show ?thesis by (simp only: unat_byte_le)
    qed
  qed
  have peak: "F ! yp ! xp = 255"
    if n: "n < length pts" and xy: "point_xy (pts ! n) = (real xp, real yp)"
      and y: "yp < ?H" and x: "xp < ?W" for n xp yp
  proof -
    from n assms(4) have "2 \<le> length (pts ! n)" by simp
    from label2maskmap_gt_default [OF this assms(2,3)] obtain A where
      A: "label2maskmap_gt (pts ! n) [1, ?H, ?W] 0 0 10 False = Inr (ByteMap A)"
      and Apeak: "\<forall>xp yp. point_xy (pts ! n) = (real xp, real yp) \<and> yp < ?H \<and> xp < ?W
                    \<longrightarrow> A ! yp ! xp = 255"
      by blast
    from each n A have "As ! n = A" by simp
    moreover from Apeak xy y x have "A ! yp ! xp = 255" by blast
    ultimately have "As ! n ! yp ! xp = 255" by simp
    then have "real (unat (As ! n ! yp ! xp)) = 255" by (simp only: unat_byte_255)
    moreover from n len have "As ! n \<in> set As" by simp
    ultimately have "255 \<in> insert 0 ((\<lambda>A. real (unat (A ! yp ! xp))) ` set As)"
      by (intro insertI2) (metis (mono_tags, lifting) imageI)
    then have "255 \<le> Max (insert 0 ((\<lambda>A. real (unat (A ! yp ! xp))) ` set As))"
      by (intro Max_ge) simp_all
    then have "255 \<le> F ! yp ! xp" by (simp only: entry [OF y x])
    with bound [OF y x] show ?thesis by (rule antisym)
  qed
  have two: "F ! w ! h = max (real (unat (As ! 0 ! w ! h))) (real (unat (As ! 1 ! w ! h)))"
    if "length pts = 2" "w < ?H" "h < ?W" for w h
  proof -
    from that(1) len have "length As = 2" by simp
    then obtain A B where AB: "As = [A, B]"
      by (cases As; cases "tl As") auto
    have "F ! w ! h = fold (\<lambda>A acc. max acc (real (unat (A ! w ! h)))) As 0"
      using that(2,3) by (simp add: F_def final_def)
    also have "\<dots> = max (max 0 (real (unat (A ! w ! h)))) (real (unat (B ! w ! h)))"
      by (simp only: AB fold_simps comp_apply id_apply)
    also have "\<dots> = max (real (unat (A ! w ! h))) (real (unat (B ! w ! h)))"
      by (simp only: max_zero_byte)
    finally show ?thesis by (simp only: AB nth_Cons_0 nth_Cons_Suc One_nat_def)
  qed
  from run len each entry bound peak two show ?thesis
    by (intro exI [of _ F] exI [of _ As]) blast
qed

theorem extract_all_merges_by_maximum_witness:
  "\<exists>F As. extract_all [[0, 10, 10], [0, 100, 100]] [150, 200] = Inr [F]
           \<and> label2maskmap_gt [0, 10, 10] [1, 150, 200] 0 0 10 False = Inr (ByteMap (As ! 0))
           \<and> label2maskmap_gt [0, 100, 100] [1, 150, 200] 0 0 10 False = Inr (ByteMap (As ! 1))
           \<and> F ! 10 ! 10 = 255 \<and> F ! 100 ! 100 = 255
           \<and> F ! 10 ! 100 = max (real (unat (As ! 0 ! 10 ! 100))) (real (unat (As ! 1 ! 10 ! 100)))"
proof -
  let ?pts = "[[0, 10, 10], [0, 100, 100]] :: real list list"
  let ?s = "[150, 200] :: nat list"
  have "\<exists>F As. extract_all ?pts ?s = Inr [F] \<and> length As = length ?pts
           \<and> (\<forall>n<length ?pts.
                 label2maskmap_gt (?pts ! n) [1, ?s ! 0, ?s ! 1] 0 0 10 False
                   = Inr (ByteMap (As ! n)))
           \<and> (\<forall>w < ?s ! 0. \<forall>h < ?s ! 1.
                 F ! w ! h = Max (insert 0 ((\<lambda>A. real (unat (A ! w ! h))) ` set As))
                 \<and> F ! w ! h \<le> 255)
           \<and> (\<forall>n<length ?pts. \<forall>xp yp.
                 point_xy (?pts ! n) = (real xp, real yp) \<and> yp < ?s ! 0 \<and> xp < ?s ! 1
                 \<longrightarrow> F ! yp ! xp = 255)
           \<and> (length ?pts = 2 \<longrightarrow>
                 (\<forall>w < ?s ! 0. \<forall>h < ?s ! 1.
                    F ! w ! h = max (real (unat (As ! 0 ! w ! h))) (real (unat (As ! 1 ! w ! h)))))"
    by (rule extract_all_merges_by_maximum) simp_all
  then show ?thesis
  proof (elim exE conjE)
    fix F :: array2 and As :: "8 word list list list"
    assume run: "extract_all ?pts ?s = Inr [F]"
      and each: "\<forall>n<length ?pts.
                 label2maskmap_gt (?pts ! n) [1, ?s ! 0, ?s ! 1] 0 0 10 False
                   = Inr (ByteMap (As ! n))"
      and peak: "\<forall>n<length ?pts. \<forall>xp yp.
                 point_xy (?pts ! n) = (real xp, real yp) \<and> yp < ?s ! 0 \<and> xp < ?s ! 1
                 \<longrightarrow> F ! yp ! xp = 255"
      and two: "length ?pts = 2 \<longrightarrow>
                 (\<forall>w < ?s ! 0. \<forall>h < ?s ! 1.
                    F ! w ! h = max (real (unat (As ! 0 ! w ! h))) (real (unat (As ! 1 ! w ! h))))"
    from each [rule_format, of 0] each [rule_format, of 1]
    have heat: "label2maskmap_gt [0, 10, 10] [1, 150, 200] 0 0 10 False = Inr (ByteMap (As ! 0))"
      "label2maskmap_gt [0, 100, 100] [1, 150, 200] 0 0 10 False = Inr (ByteMap (As ! 1))"
      by simp_all
    have "point_xy (?pts ! 0) = (real 10, real 10) \<and> 10 < ?s ! 0 \<and> 10 < ?s ! 1"
      by (simp add: point_xy_def)
    with peak [rule_format, of 0 10 10] have p1: "F ! 10 ! 10 = 255" by simp
    have "point_xy (?pts ! 1) = (real 100, real 100) \<and> 100 < ?s ! 0 \<and> 100 < ?s ! 1"
      by (simp add: point_xy_def)
    with peak [rule_format, of 1 100 100] have p2: "F ! 100 ! 100 = 255" by simp
    from two [rule_format, of 10 100]
    have m: "F ! 10 ! 100 = max (real (unat (As ! 0 ! 10 ! 100))) (real (unat (As ! 1 ! 10 ! 100)))"
      by simp
    from run heat p1 p2 m show ?thesis
      by (intro exI [of _ F] exI [of _ As] conjI)
  qed
qed

text \<open>
  The example of the specification: points \<open>(0, 10, 10)\<close> and \<open>(0, 100, 100)\<close> on a
  150-by-200 canvas.  The merged value at \<open>[10, 10]\<close> is 255, not 1.
\<close>

theorem extract_all_peak_is_255:
  "entry3 (extract_all [[0, 10, 10], [0, 100, 100]] [150, 200]) 0 10 10 = Inr 255"
proof -
  let ?p = "[0, 10, 10] :: real list" and ?q = "[0, 100, 100] :: real list"
  let ?s = "[150, 200] :: nat list"
  have "\<exists>A B. label2maskmap_gt ?p [1, ?s ! 0, ?s ! 1] 0 0 10 False = Inr (ByteMap A)
           \<and> label2maskmap_gt ?q [1, ?s ! 0, ?s ! 1] 0 0 10 False = Inr (ByteMap B)
           \<and> (\<forall>xp yp. point_xy ?p = (real xp, real yp) \<and> yp < ?s ! 0 \<and> xp < ?s ! 1
                  \<longrightarrow> A ! yp ! xp = 255)
           \<and> (\<forall>xp yp. point_xy ?q = (real xp, real yp) \<and> yp < ?s ! 0 \<and> xp < ?s ! 1
                  \<longrightarrow> B ! yp ! xp = 255)
           \<and> extract_all [?p, ?q] ?s =
               Inr [map (\<lambda>w. map (\<lambda>h. max (max 0 (real (unat (A ! w ! h))))
                                           (real (unat (B ! w ! h))))
                                 [0..<?s ! 1]) [0..<?s ! 0]]"
    by (rule extract_all_pair) simp_all
  then show ?thesis
  proof (elim exE conjE)
    fix A B :: "8 word list list"
    assume Apeak: "\<forall>xp yp. point_xy ?p = (real xp, real yp) \<and> yp < ?s ! 0 \<and> xp < ?s ! 1
                  \<longrightarrow> A ! yp ! xp = 255"
      and run: "extract_all [?p, ?q] ?s =
               Inr [map (\<lambda>w. map (\<lambda>h. max (max 0 (real (unat (A ! w ! h))))
                                           (real (unat (B ! w ! h))))
                                 [0..<?s ! 1]) [0..<?s ! 0]]"
    have "point_xy ?p = (real 10, real 10) \<and> 10 < ?s ! 0 \<and> 10 < ?s ! 1"
      by (simp add: point_xy_def)
    with Apeak have A: "A ! 10 ! 10 = 255" by blast
    have "entry3 (extract_all [?p, ?q] ?s) 0 10 10
            = Inr (max (max 0 (real (unat (A ! 10 ! 10)))) (real (unat (B ! 10 ! 10))))"
      unfolding run by (simp add: entry3_def del: of_nat_unat)
    also have "max (max 0 (real (unat (A ! 10 ! 10)))) (real (unat (B ! 10 ! 10))) = 255"
      unfolding A using unat_byte_le [of "B ! 10 ! 10"]
      by (simp only: unat_byte_255 max_zero_byte max_absorb1)
    finally show ?thesis .
  qed
qed

section \<open>The standard normal distribution function\<close>

lemma cdf_coeff_summable: "summable (\<lambda>m. cdf_coeff m * t ^ m)"
proof (rule summable_comparison_test)
  show "summable (\<lambda>m. norm ((t / 2) ^ m /\<^sub>R fact m))"
    by (rule summable_norm_exp)
  show "\<exists>N. \<forall>n\<ge>N. norm (cdf_coeff n * t ^ n) \<le> norm ((t / 2) ^ n /\<^sub>R fact n)"
  proof (intro exI [of _ 0] allI impI)
    fix n :: nat
    have "norm (cdf_coeff n * t ^ n) = (\<bar>t\<bar> / 2) ^ n / fact n / real (2 * n + 1)"
      by (simp add: cdf_coeff_def norm_mult norm_divide norm_power power_divide abs_mult power_abs)
    also have "\<dots> \<le> (\<bar>t\<bar> / 2) ^ n / fact n"
    proof -
      have "0 \<le> (\<bar>t\<bar> / 2) ^ n / fact n" by simp
      then have "(\<bar>t\<bar> / 2) ^ n / fact n / real (2 * n + 1) \<le> (\<bar>t\<bar> / 2) ^ n / fact n / 1"
        by (intro divide_left_mono) auto
      then show ?thesis by simp
    qed
    also have "\<dots> = norm ((t / 2) ^ n /\<^sub>R fact n)"
      by (simp add: power_abs abs_divide field_simps)
    finally show "norm (cdf_coeff n * t ^ n) \<le> norm ((t / 2) ^ n /\<^sub>R fact n)" .
  qed
qed

lemma cdf_series_deriv:
  "DERIV cdf_series t :> (\<Sum>m. diffs cdf_coeff m * t ^ m)"
  unfolding cdf_series_def
  by (rule termdiffs_strong_converges_everywhere) (rule cdf_coeff_summable)

lemma cdf_series_ode:
  "cdf_series t + 2 * t * (\<Sum>m. diffs cdf_coeff m * t ^ m) = exp (- t / 2)"
proof -
  have s1: "(\<lambda>m. cdf_coeff m * t ^ m) sums cdf_series t"
    unfolding cdf_series_def by (rule summable_sums [OF cdf_coeff_summable])
  have "summable (\<lambda>m. diffs cdf_coeff m * t ^ m)"
    by (rule termdiff_converges_all) (rule cdf_coeff_summable)
  then have "(\<lambda>n. of_nat n * cdf_coeff n * t ^ (n - Suc 0)) sums (\<Sum>m. diffs cdf_coeff m * t ^ m)"
    by (rule diffs_equiv)
  then have "(\<lambda>n. (2 * t) * (of_nat n * cdf_coeff n * t ^ (n - Suc 0)))
               sums (2 * t * (\<Sum>m. diffs cdf_coeff m * t ^ m))"
    by (rule sums_mult)
  moreover have "(\<lambda>n. (2 * t) * (of_nat n * cdf_coeff n * t ^ (n - Suc 0)))
                   = (\<lambda>n. 2 * of_nat n * cdf_coeff n * t ^ n)"
  proof
    fix n show "(2 * t) * (of_nat n * cdf_coeff n * t ^ (n - Suc 0)) = 2 * of_nat n * cdf_coeff n * t ^ n"
      by (cases n) simp_all
  qed
  ultimately have s2: "(\<lambda>n. 2 * of_nat n * cdf_coeff n * t ^ n)
                         sums (2 * t * (\<Sum>m. diffs cdf_coeff m * t ^ m))"
    by simp
  have "(\<lambda>n. cdf_coeff n * t ^ n + 2 * of_nat n * cdf_coeff n * t ^ n) sums
          (cdf_series t + 2 * t * (\<Sum>m. diffs cdf_coeff m * t ^ m))"
    by (rule sums_add [OF s1 s2])
  moreover have "(\<lambda>n. cdf_coeff n * t ^ n + 2 * of_nat n * cdf_coeff n * t ^ n)
                   = (\<lambda>n. (- t / 2) ^ n /\<^sub>R fact n)"
  proof
    fix n
    have "cdf_coeff n * t ^ n + 2 * of_nat n * cdf_coeff n * t ^ n
            = cdf_coeff n * real (2 * n + 1) * t ^ n"
      by (simp add: algebra_simps)
    also have "cdf_coeff n * real (2 * n + 1) = (- 1 / 2) ^ n / fact n"
      by (simp add: cdf_coeff_def)
    also have "(- 1 / 2) ^ n / fact n * t ^ n = (- t / 2) ^ n /\<^sub>R fact n"
    proof -
      have "(- t / 2) ^ n = ((- 1 / 2) * t) ^ n" by simp
      also have "\<dots> = (- 1 / 2) ^ n * t ^ n" by (rule power_mult_distrib)
      finally have "(- t / 2) ^ n /\<^sub>R fact n = ((- 1 / 2) ^ n * t ^ n) /\<^sub>R fact n"
        by (rule arg_cong)
      then show ?thesis by (simp add: field_simps)
    qed
    finally show "cdf_coeff n * t ^ n + 2 * of_nat n * cdf_coeff n * t ^ n
                    = (- t / 2) ^ n /\<^sub>R fact n" .
  qed
  ultimately have "(\<lambda>n. (- t / 2) ^ n /\<^sub>R fact n)
                     sums (cdf_series t + 2 * t * (\<Sum>m. diffs cdf_coeff m * t ^ m))"
    by simp
  moreover have "(\<lambda>n. (- t / 2) ^ n /\<^sub>R fact n) sums exp (- t / 2)"
    by (rule exp_converges)
  ultimately show ?thesis
    by (rule sums_unique2)
qed

lemma norm_cdf_deriv: "DERIV norm_cdf x :> norm_pdf x"
proof -
  let ?d = "\<Sum>m. diffs cdf_coeff m * (x\<^sup>2) ^ m"
  have "DERIV (\<lambda>x. cdf_series (x\<^sup>2)) x :> ?d * (2 * x)"
    by (rule DERIV_chain' [OF _ cdf_series_deriv]) (auto intro!: derivative_eq_intros)
  then have "DERIV (\<lambda>x. 1 / 2 + x * cdf_series (x\<^sup>2) / sqrt (2 * pi)) x
               :> (cdf_series (x\<^sup>2) + 2 * x\<^sup>2 * ?d) / sqrt (2 * pi)"
    by (auto intro!: derivative_eq_intros simp: power2_eq_square field_simps)
  then show ?thesis
    unfolding norm_pdf_def cdf_series_ode [of "x\<^sup>2", simplified]
    by (simp add: norm_cdf_def [abs_def] cdf_series_ode)
qed

lemma norm_cdf_zero: "norm_cdf 0 = 1 / 2"
  by (simp add: norm_cdf_def)

lemma norm_pdf_pos: "0 < norm_pdf x"
  by (simp add: norm_pdf_def)

lemma norm_pdf_decreasing:
  assumes "0 \<le> x" and "x < y"
  shows "norm_pdf y < norm_pdf x"
proof -
  from assms have "x * x < y * y" by (intro mult_strict_mono') simp_all
  then have "x\<^sup>2 < y\<^sup>2" by (simp add: power2_eq_square)
  then have "exp (- y\<^sup>2 / 2) < exp (- x\<^sup>2 / 2)" by simp
  then show ?thesis
    unfolding norm_pdf_def by (rule divide_strict_right_mono) simp
qed

lemma norm_cdf_increment:
  assumes "a < b"
  shows "\<exists>z. a < z \<and> z < b \<and> norm_cdf b - norm_cdf a = (b - a) * norm_pdf z"
  using assms by (rule MVT2) (rule norm_cdf_deriv)

lemma norm_cdf_bins_decreasing:
  assumes "0 \<le> a" and "a < b" and "b \<le> c" and "c < d" and "b - a = d - c"
  shows "norm_cdf d - norm_cdf c < norm_cdf b - norm_cdf a"
proof -
  from norm_cdf_increment [OF assms(2)] obtain u where
    u: "a < u" "u < b" "norm_cdf b - norm_cdf a = (b - a) * norm_pdf u" by blast
  from norm_cdf_increment [OF assms(4)] obtain v where
    v: "c < v" "v < d" "norm_cdf d - norm_cdf c = (d - c) * norm_pdf v" by blast
  from u v assms have "0 \<le> u" "u < v" by simp_all
  then have "norm_pdf v < norm_pdf u" by (rule norm_pdf_decreasing)
  moreover from assms have "0 < b - a" by simp
  ultimately have "(b - a) * norm_pdf v < (b - a) * norm_pdf u"
    by (simp only: mult_less_cancel_left_pos)
  then show ?thesis by (simp only: u(3) v(3) assms(5) [symmetric])
qed

lemma norm_cdf_bin_pos:
  assumes "a < b"
  shows "0 < norm_cdf b - norm_cdf a"
proof -
  from norm_cdf_increment [OF assms] obtain u where
    "norm_cdf b - norm_cdf a = (b - a) * norm_pdf u" by blast
  with assms norm_pdf_pos [of u] show ?thesis by simp
qed

lemma bin_prob_pos: "0 < k \<Longrightarrow> 0 < bin_prob k i"
  unfolding bin_prob_def by (rule norm_cdf_bin_pos) (simp add: divide_strict_right_mono)

lemma bin_prob_Suc: 
  assumes "0 < k"
  shows "bin_prob k (Suc i) < bin_prob k i"
  unfolding bin_prob_def
proof (rule norm_cdf_bins_decreasing)
  show "0 \<le> real i / real k" by simp
  show "real i / real k < real (i + 1) / real k"
    using assms by (simp add: divide_strict_right_mono)
  show "real (i + 1) / real k \<le> real (Suc i) / real k" by simp
  show "real (Suc i) / real k < real (Suc i + 1) / real k"
    using assms by (simp add: divide_strict_right_mono)
  show "real (i + 1) / real k - real i / real k = real (Suc i + 1) / real k - real (Suc i) / real k"
    by (simp flip: diff_divide_distrib)
qed

lemma bin_prob_less:
  assumes "0 < k" and "i < j"
  shows "bin_prob k j < bin_prob k i"
  using assms(2)
proof (induction j)
  case 0
  then show ?case by simp
next
  case (Suc j)
  show ?case
  proof (cases "i = j")
    case True
    then show ?thesis using bin_prob_Suc [OF assms(1), of j] by simp
  next
    case False
    with Suc.prems have "i < j" by simp
    then have "bin_prob k j < bin_prob k i" by (rule Suc.IH)
    with bin_prob_Suc [OF assms(1), of j] show ?thesis by simp
  qed
qed

lemma bin_prob_le: "0 < k \<Longrightarrow> i \<le> j \<Longrightarrow> bin_prob k j \<le> bin_prob k i"
  using bin_prob_less [of k i j] by (cases "i = j") simp_all

section \<open>The kernel of gkern\<close>

lemma np_diff_length: "length (np_diff xs) = length xs - 1"
  by (induction xs rule: np_diff.induct) simp_all

lemma np_diff_nth: "i < length xs - 1 \<Longrightarrow> np_diff xs ! i = xs ! Suc i - xs ! i"
proof (induction xs arbitrary: i rule: np_diff.induct)
  case (1 a b xs)
  then show ?case by (cases i) simp_all
qed simp_all

lemma linspace_unit:
  assumes "0 < k"
  shows "linspace 0 1 (k + 1) = map (\<lambda>i. real i / real k) [0..<k + 1]"
  using assms by (simp add: linspace_def)

lemma kern1d_eq:
  assumes "0 < k"
  shows "np_diff (map norm_cdf (linspace 0 1 (k + 1))) = map (bin_prob k) [0..<k]"
proof (rule nth_equalityI)
  show "length (np_diff (map norm_cdf (linspace 0 1 (k + 1)))) = length (map (bin_prob k) [0..<k])"
    unfolding linspace_unit [OF assms] by (simp add: np_diff_length)
  fix i assume "i < length (np_diff (map norm_cdf (linspace 0 1 (k + 1))))"
  then have i: "i < k" unfolding linspace_unit [OF assms] by (simp add: np_diff_length)
  then have "np_diff (map norm_cdf (linspace 0 1 (k + 1))) ! i
               = map norm_cdf (linspace 0 1 (k + 1)) ! Suc i - map norm_cdf (linspace 0 1 (k + 1)) ! i"
    unfolding linspace_unit [OF assms] by (intro np_diff_nth) simp
  also have "\<dots> = bin_prob k i"
    unfolding linspace_unit [OF assms] using i by (simp add: bin_prob_def nth_append del: upt_Suc)
  finally show "np_diff (map norm_cdf (linspace 0 1 (k + 1))) ! i = map (bin_prob k) [0..<k] ! i"
    using i by simp
qed

lemma sum_outer: "sum_list (concat (outer u v)) = sum_list u * sum_list v"
  by (induction u) (simp_all add: outer_def sum_list_const_mult algebra_simps)

lemma sum_list_positive:
  fixes xs :: "real list"
  assumes "xs \<noteq> []" and "\<forall>x\<in>set xs. 0 < x"
  shows "0 < sum_list xs"
  using assms
proof (induction xs)
  case Nil
  then show ?case by simp
next
  case (Cons x xs)
  then show ?case by (cases xs) (auto intro: add_pos_pos)
qed

lemma normalize_eq:
  assumes "concat arr \<noteq> []" and "Max (set (concat arr)) = ma" and "Min (set (concat arr)) = mi"
    and "ma \<noteq> mi"
  shows "normalize arr = Inr (map (map (\<lambda>v. (v - mi) / (ma - mi))) arr)"
  using assms by (simp add: normalize_def np_max_def np_min_def)

lemma table_mem:
  "z \<in> set (concat (map (\<lambda>i. map (g i) [0..<m]) [0..<n])) \<longleftrightarrow> (\<exists>i<n. \<exists>j<m. z = g i j)"
proof
  let ?T = "map (\<lambda>i. map (g i) [0..<m]) [0..<n]"
  assume "z \<in> set (concat ?T)"
  then have "\<exists>a<length ?T. \<exists>b<length (?T ! a). z = ?T ! a ! b"
    by (rule concat_mem_nth)
  then obtain a b where ab: "a < length ?T" "b < length (?T ! a)" "z = ?T ! a ! b"
    by blast
  from ab(1) have a: "a < n" by simp
  with ab(2) have b: "b < m" by simp
  from a b ab(3) have "z = g a b" by simp
  with a b show "\<exists>i<n. \<exists>j<m. z = g i j" by blast
next
  let ?T = "map (\<lambda>i. map (g i) [0..<m]) [0..<n]"
  assume "\<exists>i<n. \<exists>j<m. z = g i j"
  then obtain i j where ij: "i < n" "j < m" "z = g i j" by blast
  have "?T ! i ! j \<in> set (concat ?T)"
    by (rule concat_nth_mem) (simp_all add: ij)
  with ij show "z \<in> set (concat ?T)" by simp
qed

lemma table_nonempty: "0 < n \<Longrightarrow> 0 < m \<Longrightarrow> concat (map (\<lambda>i. map (g i) [0..<m]) [0..<n]) \<noteq> []"
proof -
  assume "0 < n" "0 < m"
  then have "g 0 0 \<in> set (concat (map (\<lambda>i. map (g i) [0..<m]) [0..<n]))"
    unfolding table_mem by blast
  then show ?thesis by (rule mem_nonempty)
qed

lemma table_Max:
  fixes g :: "nat \<Rightarrow> nat \<Rightarrow> real"
  assumes "a < n" and "b < m" and "\<And>i j. i < n \<Longrightarrow> j < m \<Longrightarrow> g i j \<le> g a b"
  shows "Max (set (concat (map (\<lambda>i. map (g i) [0..<m]) [0..<n]))) = g a b"
proof (rule Max_eqI)
  show "finite (set (concat (map (\<lambda>i. map (g i) [0..<m]) [0..<n])))" by simp
  show "g a b \<in> set (concat (map (\<lambda>i. map (g i) [0..<m]) [0..<n]))"
    unfolding table_mem using assms(1,2) by blast
  fix z assume "z \<in> set (concat (map (\<lambda>i. map (g i) [0..<m]) [0..<n]))"
  then obtain i j where "i < n" "j < m" "z = g i j" unfolding table_mem by blast
  then show "z \<le> g a b" using assms(3) by simp
qed

lemma table_Min:
  fixes g :: "nat \<Rightarrow> nat \<Rightarrow> real"
  assumes "a < n" and "b < m" and "\<And>i j. i < n \<Longrightarrow> j < m \<Longrightarrow> g a b \<le> g i j"
  shows "Min (set (concat (map (\<lambda>i. map (g i) [0..<m]) [0..<n]))) = g a b"
proof (rule Min_eqI)
  show "finite (set (concat (map (\<lambda>i. map (g i) [0..<m]) [0..<n])))" by simp
  show "g a b \<in> set (concat (map (\<lambda>i. map (g i) [0..<m]) [0..<n]))"
    unfolding table_mem using assms(1,2) by blast
  fix z assume "z \<in> set (concat (map (\<lambda>i. map (g i) [0..<m]) [0..<n]))"
  then obtain i j where "i < n" "j < m" "z = g i j" unfolding table_mem by blast
  then show "g a b \<le> z" using assms(3) by simp
qed

lemma gkern_eq:
  assumes "2 \<le> k"
  shows "gkern k = Inr (map (\<lambda>i. map (\<lambda>j. kernel_entry k i j) [0..<k]) [0..<k])"
proof -
  define d where "d = bin_prob k"
  define ds where "ds = map d [0..<k]"
  define s where "s = sum_list ds * sum_list ds"
  define T where "T = map (\<lambda>i. map (\<lambda>j. d i * d j / s) [0..<k]) [0..<k]"
  from assms have k: "0 < k" by simp
  have dpos: "0 < d i" for i unfolding d_def using k by (rule bin_prob_pos)
  have dle: "d j \<le> d i" if "i \<le> j" for i j unfolding d_def using k that by (rule bin_prob_le)
  have kern1d: "np_diff (map norm_cdf (linspace 0 1 (k + 1))) = ds"
    unfolding ds_def d_def using k by (rule kern1d_eq)
  have outer: "outer ds ds = map (\<lambda>i. map (\<lambda>j. d i * d j) [0..<k]) [0..<k]"
    by (simp add: outer_def ds_def comp_def)
  have "0 < sum_list ds"
  proof (rule sum_list_positive)
    show "ds \<noteq> []" using k by (simp add: ds_def)
    show "\<forall>x\<in>set ds. 0 < x" using dpos by (auto simp: ds_def)
  qed
  then have spos: "0 < s" by (simp add: s_def)
  have sum: "sum_list (concat (outer ds ds)) = s"
    unfolding s_def by (rule sum_outer)
  have ne: "concat (outer ds ds) \<noteq> []"
    unfolding outer using k k by (rule table_nonempty)
  have scaled: "map (map (\<lambda>v. v / s)) (outer ds ds) = T"
    by (simp add: outer T_def comp_def)
  have step: "gkern k = normalize T"
    unfolding gkern_def Let_def kern1d sum scaled using spos ne by simp
  have neT: "concat T \<noteq> []"
    unfolding T_def using k k by (rule table_nonempty)
  have maxT: "Max (set (concat T)) = d 0 * d 0 / s"
    unfolding T_def
  proof (rule table_Max)
    fix i j assume "i < k" "j < k"
    have "d i * d j \<le> d 0 * d 0"
      by (intro mult_mono dle) (simp_all add: less_imp_le [OF dpos])
    then show "d i * d j / s \<le> d 0 * d 0 / s"
      using spos by (simp add: divide_right_mono)
  qed (rule k)+
  have minT: "Min (set (concat T)) = d (k - 1) * d (k - 1) / s"
    unfolding T_def
  proof (rule table_Min)
    fix i j assume "i < k" "j < k"
    then have "d (k - 1) * d (k - 1) \<le> d i * d j"
      by (intro mult_mono dle) (simp_all add: less_imp_le [OF dpos])
    then show "d (k - 1) * d (k - 1) / s \<le> d i * d j / s"
      using spos by (simp add: divide_right_mono)
  qed (use k in simp_all)
  have "d (k - 1) < d 0"
    unfolding d_def using k by (rule bin_prob_less) (use assms in simp)
  then have "d (k - 1) * d (k - 1) < d 0 * d 0"
    by (intro mult_strict_mono) (simp_all add: less_imp_le [OF dpos] dpos)
  then have gap: "0 < d 0 * d 0 - d (k - 1) * d (k - 1)" by simp
  with spos have "d 0 * d 0 / s \<noteq> d (k - 1) * d (k - 1) / s"
    by (simp add: divide_cancel_right)
  with neT maxT minT have norm: "normalize T =
      Inr (map (map (\<lambda>v. (v - d (k - 1) * d (k - 1) / s) / (d 0 * d 0 / s - d (k - 1) * d (k - 1) / s))) T)"
    by (intro normalize_eq) simp_all
  have entry: "(d i * d j / s - d (k - 1) * d (k - 1) / s) / (d 0 * d 0 / s - d (k - 1) * d (k - 1) / s)
                 = kernel_entry k i j" for i j
  proof -
    have "(d i * d j / s - d (k - 1) * d (k - 1) / s) / (d 0 * d 0 / s - d (k - 1) * d (k - 1) / s)
            = ((d i * d j - d (k - 1) * d (k - 1)) / s) / ((d 0 * d 0 - d (k - 1) * d (k - 1)) / s)"
      by (simp only: diff_divide_distrib)
    also have "\<dots> = (d i * d j - d (k - 1) * d (k - 1)) / (d 0 * d 0 - d (k - 1) * d (k - 1))"
      using spos by simp
    finally show ?thesis by (simp only: kernel_entry_def d_def)
  qed
  have "map (map (\<lambda>v. (v - d (k - 1) * d (k - 1) / s) / (d 0 * d 0 / s - d (k - 1) * d (k - 1) / s))) T
          = map (\<lambda>i. map (\<lambda>j. kernel_entry k i j) [0..<k]) [0..<k]"
    unfolding T_def by (simp only: map_map comp_def entry)
  with step norm show ?thesis by simp
qed

lemma kernel_entry_bounds:
  assumes "2 \<le> k" and "i < k" and "j < k"
  shows "0 \<le> kernel_entry k i j" and "kernel_entry k i j \<le> 1"
proof -
  define d where "d = bin_prob k"
  from assms have k: "0 < k" by simp
  have dpos: "0 < d i" for i unfolding d_def using k by (rule bin_prob_pos)
  have dle: "d j \<le> d i" if "i \<le> j" for i j unfolding d_def using k that by (rule bin_prob_le)
  have "d (k - 1) < d 0"
    unfolding d_def using k by (rule bin_prob_less) (use assms in simp)
  then have "d (k - 1) * d (k - 1) < d 0 * d 0"
    by (intro mult_strict_mono) (simp_all add: less_imp_le [OF dpos] dpos)
  then have gap: "0 < d 0 * d 0 - d (k - 1) * d (k - 1)" by simp
  have lo: "d (k - 1) * d (k - 1) \<le> d i * d j"
    using assms(2,3) by (intro mult_mono dle) (simp_all add: less_imp_le [OF dpos])
  have hi: "d i * d j \<le> d 0 * d 0"
    by (intro mult_mono dle) (simp_all add: less_imp_le [OF dpos])
  from lo gap show "0 \<le> kernel_entry k i j"
    unfolding kernel_entry_def d_def [symmetric] by simp
  from hi gap show "kernel_entry k i j \<le> 1"
    unfolding kernel_entry_def d_def [symmetric] by simp
qed

lemma kernel_entry_sym: "kernel_entry k i j = kernel_entry k j i"
  by (simp add: kernel_entry_def mult.commute)

lemma kernel_entry_corner:
  assumes "2 \<le> k"
  shows "kernel_entry k 0 0 = 1"
proof -
  from assms have k: "0 < k" by simp
  have "bin_prob k (k - 1) < bin_prob k 0"
    using k by (rule bin_prob_less) (use assms in simp)
  moreover have "0 < bin_prob k (k - 1)" using k by (rule bin_prob_pos)
  ultimately have "bin_prob k (k - 1) * bin_prob k (k - 1) < bin_prob k 0 * bin_prob k 0"
    by (intro mult_strict_mono) simp_all
  then show ?thesis by (simp add: kernel_entry_def)
qed

lemma kernel_entry_last:
  "kernel_entry k (k - 1) (k - 1) = 0"
  by (simp add: kernel_entry_def)

lemma kernel_entry_off_corner:
  assumes "2 \<le> k" and "0 < i \<or> 0 < j"
  shows "kernel_entry k i j < 1"
proof -
  define d where "d = bin_prob k"
  from assms have k: "0 < k" by simp
  have dpos: "0 < d i" for i unfolding d_def using k by (rule bin_prob_pos)
  have dle: "d j \<le> d i" if "i \<le> j" for i j unfolding d_def using k that by (rule bin_prob_le)
  have dless: "d j < d i" if "i < j" for i j unfolding d_def using k that by (rule bin_prob_less)
  have "d (k - 1) < d 0" by (rule dless) (use assms in simp)
  then have "d (k - 1) * d (k - 1) < d 0 * d 0"
    by (intro mult_strict_mono) (simp_all add: less_imp_le [OF dpos] dpos)
  then have gap: "0 < d 0 * d 0 - d (k - 1) * d (k - 1)" by simp
  have "d i * d j < d 0 * d 0"
  proof (cases "0 < i")
    case True
    then have "d i < d 0" by (rule dless)
    moreover have "d j \<le> d 0" by (rule dle) simp
    ultimately show ?thesis by (intro mult_less_le_imp_less) (simp_all add: dpos less_imp_le [OF dpos])
  next
    case False
    with assms(2) have "0 < j" by simp
    then have "d j < d 0" by (rule dless)
    moreover have "d i \<le> d 0" by (rule dle) simp
    ultimately show ?thesis by (intro mult_le_less_imp_less) (simp_all add: dpos less_imp_le [OF dpos])
  qed
  with gap show ?thesis
    unfolding kernel_entry_def d_def [symmetric] by simp
qed

lemma gkern_one: "gkern 1 = Inl NotANumber"
proof -
  define p where "p = norm_cdf 1 - norm_cdf 0"
  have "0 < p" unfolding p_def by (rule norm_cdf_bin_pos) simp
  have "linspace 0 1 (1 + 1) = [0, 1]"
    by (simp add: linspace_def upt_rec)
  then have "np_diff (map norm_cdf (linspace 0 1 (1 + 1))) = [p]"
    by (simp add: p_def)
  then show ?thesis
    using \<open>0 < p\<close> by (simp add: gkern_def outer_def normalize_def np_max_def np_min_def)
qed



text \<open>
  Claim C1, as the code has it.  For every kernel length \<open>k\<close> of at least 2, \<open>gkern k\<close> is a
  \<open>k\<close>-by-\<open>k\<close> array, symmetric, with all its values between 0 and 1.
\<close>

theorem gkern_shape_range_symmetric:
  assumes "2 \<le> k"
  shows "\<exists>K. gkern k = Inr K \<and> length K = k \<and> (\<forall>i<k. length (K ! i) = k)
           \<and> (\<forall>i<k. \<forall>j<k. 0 \<le> K ! i ! j \<and> K ! i ! j \<le> 1 \<and> K ! i ! j = K ! j ! i)"
proof -
  define K where "K = map (\<lambda>i. map (\<lambda>j. kernel_entry k i j) [0..<k]) [0..<k]"
  have run: "gkern k = Inr K"
    unfolding K_def using assms by (rule gkern_eq)
  have len: "length K = k" by (simp add: K_def)
  have row: "length (K ! i) = k" if "i < k" for i using that by (simp add: K_def)
  have entry: "K ! i ! j = kernel_entry k i j" if "i < k" "j < k" for i j
    using that by (simp add: K_def)
  have "0 \<le> K ! i ! j \<and> K ! i ! j \<le> 1 \<and> K ! i ! j = K ! j ! i" if "i < k" "j < k" for i j
    unfolding entry [OF that] entry [OF that(2,1)]
    using kernel_entry_bounds [OF assms that] kernel_entry_sym [of k i j] by simp
  with run len row show ?thesis by blast
qed

theorem gkern_shape_range_symmetric_witness:
  "\<exists>K. gkern 2 = Inr K \<and> length K = 2 \<and> (\<forall>i<2. length (K ! i) = 2)
       \<and> (\<forall>i<2. \<forall>j<2. 0 \<le> K ! i ! j \<and> K ! i ! j \<le> 1 \<and> K ! i ! j = K ! j ! i)"
  by (rule gkern_shape_range_symmetric) simp

text \<open>
  Length 1 gives the constant array \<open>[[1]]\<close> to \<open>normalize\<close>, which divides 0 by 0.  At length
  3 the centre entry is strictly below the corner entry \<open>[0][0]\<close>: the bins lie in \<open>[0, 1]\<close>,
  where the density only falls.
\<close>

theorem gkern_degenerate_and_corner_peak:
  "gkern 1 = Inl NotANumber
   \<and> (case gkern 3 of Inl e \<Rightarrow> False | Inr K \<Rightarrow> K ! 1 ! 1 < K ! 0 ! 0)"
proof -
  have "kernel_entry 3 1 1 < 1" by (rule kernel_entry_off_corner) simp_all
  moreover have "kernel_entry 3 0 0 = 1" by (rule kernel_entry_corner) simp
  ultimately have "kernel_entry 3 1 1 < kernel_entry 3 0 0" by simp
  moreover have "gkern 3 = Inr (map (\<lambda>i. map (\<lambda>j. kernel_entry 3 i j) [0..<3]) [0..<3])"
    by (rule gkern_eq) simp
  ultimately have "case gkern 3 of Inl e \<Rightarrow> False | Inr K \<Rightarrow> K ! 1 ! 1 < K ! 0 ! 0"
    by simp
  with gkern_one show ?thesis by (rule conjI)
qed

section \<open>The normalizer and the convolution\<close>










lemma kernel_table_shape:
  assumes "0 < k"
  shows "concat (map (\<lambda>i. map (g i) [0..<k]) [0..<k]) \<noteq> []"
    and "length (map (\<lambda>i. map (g i) [0..<k]) [0..<k]) = k"
    and "length (hd (map (\<lambda>i. map (g i) [0..<k]) [0..<k])) = k"
proof -
  show "concat (map (\<lambda>i. map (g i) [0..<k]) [0..<k]) \<noteq> []"
    using assms assms by (rule table_nonempty)
  show "length (map (\<lambda>i. map (g i) [0..<k]) [0..<k]) = k" by simp
  from assms have "hd (map (\<lambda>i. map (g i) [0..<k]) [0..<k]) = map (\<lambda>i. map (g i) [0..<k]) [0..<k] ! 0"
    by (intro hd_conv_nth) simp
  with assms show "length (hd (map (\<lambda>i. map (g i) [0..<k]) [0..<k])) = k" by simp
qed

lemma double_sum_single:
  fixes T :: real
  assumes "r < h" and "c < w"
    and "\<And>a b. a < h \<Longrightarrow> b < w \<Longrightarrow> f a b = (if a = r \<and> b = c then T else 0)"
  shows "(\<Sum>a\<leftarrow>[0..<h]. \<Sum>b\<leftarrow>[0..<w]. f a b) = T"
proof -
  have "(\<Sum>a\<leftarrow>[0..<h]. \<Sum>b\<leftarrow>[0..<w]. f a b) = (\<Sum>a = 0..<h. \<Sum>b = 0..<w. f a b)"
    by (simp add: interv_sum_list_conv_sum_set_nat)
  also have "\<dots> = (\<Sum>a = 0..<h. \<Sum>b = 0..<w. if b = c then (if a = r then T else 0) else 0)"
    by (intro sum.cong refl) (simp add: assms(3))
  also have "\<dots> = (\<Sum>a = 0..<h. if a = r then T else 0)"
    using assms(2) by (simp add: sum.delta)
  also have "\<dots> = T"
    using assms(1) by (simp add: sum.delta)
  finally show ?thesis .
qed

lemma one_hot_nth: "a < h \<Longrightarrow> b < w \<Longrightarrow> one_hot h w r c ! a ! b = (if a = r \<and> b = c then 1 else 0)"
  by (simp add: one_hot_def)

lemma one_hot_shape:
  assumes "0 < h" and "0 < w"
  shows "concat (one_hot h w r c) \<noteq> []" and "length (one_hot h w r c) = h"
    and "length (hd (one_hot h w r c)) = w"
proof -
  show "concat (one_hot h w r c) \<noteq> []"
    unfolding one_hot_def using assms by (rule table_nonempty)
  show "length (one_hot h w r c) = h" by (simp add: one_hot_def)
  from assms have "hd (one_hot h w r c) = one_hot h w r c ! 0"
    by (intro hd_conv_nth) (simp add: one_hot_def)
  with assms show "length (hd (one_hot h w r c)) = w" by (simp add: one_hot_def)
qed

lemma convolve_one_hot:
  assumes "r < h" and "c < w" and "0 < k"
  shows "scipy_convolve (one_hot h w r c) (map (\<lambda>i. map (g i) [0..<k]) [0..<k])
           = map (\<lambda>i. map (\<lambda>j. if r \<le> i \<and> i - r < k \<and> c \<le> j \<and> j - c < k
                                then g (i - r) (j - c) else 0)
                           [0..<w + k - 1]) [0..<h + k - 1]"
proof -
  let ?K = "map (\<lambda>i. map (g i) [0..<k]) [0..<k]"
  let ?I = "one_hot h w r c"
  from assms have h: "0 < h" and w: "0 < w" by simp_all
  have run: "scipy_convolve ?I ?K =
      map (\<lambda>i. map (\<lambda>j.
                (\<Sum>a\<leftarrow>[0..<h]. \<Sum>b\<leftarrow>[0..<w].
                   (if a \<le> i \<and> i - a < k \<and> b \<le> j \<and> j - b < k
                    then ?I ! a ! b * ?K ! (i - a) ! (j - b) else 0)))
                [0..<w + k - 1]) [0..<h + k - 1]"
    unfolding scipy_convolve_def Let_def
    by (simp only: one_hot_shape [OF h w] kernel_table_shape [OF assms(3)] simp_thms if_False)
  have cell: "(\<Sum>a\<leftarrow>[0..<h]. \<Sum>b\<leftarrow>[0..<w].
                   (if a \<le> i \<and> i - a < k \<and> b \<le> j \<and> j - b < k
                    then ?I ! a ! b * ?K ! (i - a) ! (j - b) else 0))
        = (if r \<le> i \<and> i - r < k \<and> c \<le> j \<and> j - c < k then g (i - r) (j - c) else 0)" for i j
  proof (rule double_sum_single [OF assms(1,2)])
    fix a b assume "a < h" "b < w"
    then show "(if a \<le> i \<and> i - a < k \<and> b \<le> j \<and> j - b < k
                    then ?I ! a ! b * ?K ! (i - a) ! (j - b) else 0)
        = (if a = r \<and> b = c
           then (if r \<le> i \<and> i - r < k \<and> c \<le> j \<and> j - c < k then g (i - r) (j - c) else 0)
           else 0)"
      by (simp add: one_hot_nth)
  qed
  show ?thesis unfolding run by (simp only: cell)
qed

lemma heatmap_generation_one_hot:
  assumes "2 \<le> k" and "r < h" and "c < w"
  shows "heatmap_generation (one_hot h w r c) k =
           Inr (map (\<lambda>i. map (\<lambda>j. if r \<le> i \<and> i - r < k \<and> c \<le> j \<and> j - c < k
                                     then kernel_entry k (i - r) (j - c) else 0)
                           [0..<w + k - 1]) [0..<h + k - 1])"
proof -
  define E where "E = (\<lambda>i j. if r \<le> i \<and> i - r < k \<and> c \<le> j \<and> j - c < k
                                     then kernel_entry k (i - r) (j - c) else 0)"
  define T where "T = map (\<lambda>i. map (E i) [0..<w + k - 1]) [0..<h + k - 1]"
  from assms have k: "0 < k" by simp
  have conv: "scipy_convolve (one_hot h w r c) (map (\<lambda>i. map (kernel_entry k i) [0..<k]) [0..<k]) = T"
    unfolding T_def E_def using assms(2,3) k by (rule convolve_one_hot)
  have step: "heatmap_generation (one_hot h w r c) k = normalize T"
    unfolding heatmap_generation_def gkern_eq [OF assms(1)] sum.case conv ..
  have lo: "0 \<le> E i j" and hi: "E i j \<le> 1" for i j
    using kernel_entry_bounds [OF assms(1), of "i - r" "j - c"] by (simp_all add: E_def)
  have rc: "r < h + k - 1" "c < w + k - 1" using assms by simp_all
  have far: "r + (k - 1) < h + k - 1" "c + (k - 1) < w + k - 1" using assms by simp_all
  have "E r c = kernel_entry k 0 0" using k by (simp add: E_def)
  then have Erc: "E r c = 1" by (simp only: kernel_entry_corner [OF assms(1)])
  have Efar: "E (r + (k - 1)) (c + (k - 1)) = 0"
    using kernel_entry_last [of k] by (simp add: E_def)
  have ne: "concat T \<noteq> []"
    unfolding T_def by (rule table_nonempty) (use assms in simp_all)
  have "Max (set (concat T)) = E r c"
    unfolding T_def by (rule table_Max [OF rc]) (simp only: Erc hi)
  then have mx: "Max (set (concat T)) = 1" by (simp only: Erc)
  have "Min (set (concat T)) = E (r + (k - 1)) (c + (k - 1))"
    unfolding T_def by (rule table_Min [OF far]) (simp only: Efar lo)
  then have mn: "Min (set (concat T)) = 0" by (simp only: Efar)
  have "normalize T = Inr (map (map (\<lambda>v. (v - 0) / (1 - 0))) T)"
    using ne mx mn by (rule normalize_eq) simp
  then have "normalize T = Inr T" by simp
  with step show ?thesis by (simp only: T_def E_def)
qed

text \<open>
  Claim C6.  The claim puts the peak of the convolution heatmap of a single label at the
  label's coordinate plus \<open>(kernel_length - 1) / 2\<close>.  In the code the kernel has its largest
  entry at \<open>[0][0]\<close>, so for every kernel length of at least 3 the heatmap is 1 exactly at
  the label's own coordinate \<open>(r, c)\<close> and strictly below 1 everywhere else, in particular at
  \<open>(r + (k - 1) div 2, c + (k - 1) div 2)\<close>.
\<close>

theorem heatmap_peak_at_label_not_shifted:
  assumes "3 \<le> k" and "r < h" and "c < w"
  shows "\<exists>H. heatmap_generation (one_hot h w r c) k = Inr H
           \<and> length H = h + k - 1 \<and> (\<forall>i < h + k - 1. length (H ! i) = w + k - 1)
           \<and> H ! r ! c = 1
           \<and> (\<forall>i < h + k - 1. \<forall>j < w + k - 1. (i, j) \<noteq> (r, c) \<longrightarrow> H ! i ! j < 1)
           \<and> H ! (r + (k - 1) div 2) ! (c + (k - 1) div 2) < 1"
proof -
  define E where "E = (\<lambda>i j. if r \<le> i \<and> i - r < k \<and> c \<le> j \<and> j - c < k
                                     then kernel_entry k (i - r) (j - c) else 0)"
  define H where "H = map (\<lambda>i. map (E i) [0..<w + k - 1]) [0..<h + k - 1]"
  from assms have k2: "2 \<le> k" and k: "0 < k" by simp_all
  have run: "heatmap_generation (one_hot h w r c) k = Inr H"
    unfolding H_def E_def using k2 assms(2,3) by (rule heatmap_generation_one_hot)
  have len: "length H = h + k - 1" by (simp add: H_def)
  have row: "length (H ! i) = w + k - 1" if "i < h + k - 1" for i
    using that by (simp add: H_def)
  have entry: "H ! i ! j = E i j" if "i < h + k - 1" "j < w + k - 1" for i j
    using that by (simp add: H_def)
  have rc: "r < h + k - 1" "c < w + k - 1" using assms by simp_all
  have "E r c = kernel_entry k 0 0" using k by (simp add: E_def)
  then have peak: "H ! r ! c = 1"
    unfolding entry [OF rc] by (simp only: kernel_entry_corner [OF k2])
  have off: "E i j < 1" if "(i, j) \<noteq> (r, c)" for i j
  proof (cases "r \<le> i \<and> i - r < k \<and> c \<le> j \<and> j - c < k")
    case True
    with that have "0 < i - r \<or> 0 < j - c" by auto
    then have "kernel_entry k (i - r) (j - c) < 1" by (rule kernel_entry_off_corner [OF k2])
    with True show ?thesis by (simp add: E_def)
  next
    case False
    then have "E i j = 0" unfolding E_def by (rule if_not_P)
    then show ?thesis by simp
  qed
  have others: "H ! i ! j < 1" if "i < h + k - 1" "j < w + k - 1" "(i, j) \<noteq> (r, c)" for i j
    unfolding entry [OF that(1,2)] using that(3) by (rule off)
  have mid: "H ! (r + (k - 1) div 2) ! (c + (k - 1) div 2) < 1"
  proof (rule others)
    from assms show "r + (k - 1) div 2 < h + k - 1" by simp
    from assms show "c + (k - 1) div 2 < w + k - 1" by simp
    from assms(1) have "0 < (k - 1) div 2" by simp
    then show "(r + (k - 1) div 2, c + (k - 1) div 2) \<noteq> (r, c)" by simp
  qed
  from run len row peak others mid show ?thesis by blast
qed

theorem heatmap_peak_at_label_not_shifted_witness:
  "\<exists>H. heatmap_generation (one_hot 3 3 1 1) 3 = Inr H
       \<and> length H = 3 + 3 - 1 \<and> (\<forall>i < 3 + 3 - 1. length (H ! i) = 3 + 3 - 1)
       \<and> H ! 1 ! 1 = 1
       \<and> (\<forall>i < 3 + 3 - 1. \<forall>j < 3 + 3 - 1. (i, j) \<noteq> (1, 1) \<longrightarrow> H ! i ! j < 1)
       \<and> H ! (1 + (3 - 1) div 2) ! (1 + (3 - 1) div 2) < 1"
  by (rule heatmap_peak_at_label_not_shifted) simp_all








end
